theory Spec2Isabelle
  imports Complex_Main
begin

section \<open>Beam-search decoder of \<^verbatim>\<open>lmp/model.py\<close> (\<^verbatim>\<open>BaseModel.generator\<close>)\<close>

text \<open>
  The development embeds \<^verbatim>\<open>BaseModel.generator\<close> (lines 66--164 of
  \<^verbatim>\<open>src/lmp/model.py\<close>).  Token ids are natural numbers, \<^verbatim>\<open>beam_width\<close> and
  \<^verbatim>\<open>max_len\<close> are Python integers (\<open>int\<close>, possibly negative), probabilities and
  scores are real numbers (the floating-point rounding of torch is not modelled).
\<close>

subsection \<open>Errors, tokenizer, model\<close>

text \<open>
  The exceptions of the decoder: the four Python exceptions that \<^verbatim>\<open>generator\<close> can
  raise, and the \<^verbatim>\<open>InvalidInputError\<close> with which the tokenizer refuses a text.
\<close>

datatype error = ValueError | IndexError | KeyError | TypeError | InvalidInputError

text \<open>
  Modelled from the spec: the tokenizer class is not part of the sources.  The record holds
  what \<^verbatim>\<open>generator\<close> reads from it: the two id constants, \<^verbatim>\<open>vocab_size()\<close>, the
  ids \<open>text_to_ids\<close> into which a text is converted, and \<open>decode\<close>.
\<close>

record tokenizer =
  eos_token_id :: nat
  pad_token_id :: nat
  vocab_size :: nat
  text_to_ids :: "string \<Rightarrow> nat list"
  decode :: "nat list \<Rightarrow> string"

text \<open>
  Modelled from the spec (section 6): \<^verbatim>\<open>Tokenizer.encode(text)\<close> is the ordered sequence
  of token ids of the text and fails with \<^verbatim>\<open>InvalidInputError\<close> if the resulting sequence
  is empty.
\<close>

definition encode :: "tokenizer \<Rightarrow> string \<Rightarrow> error + nat list" where
  "encode tok text =
     (if text_to_ids tok text = [] then Inl InvalidInputError else Inr (text_to_ids tok text))"

text \<open>The elements of a list are computed in order; the first failure is the failure.\<close>

fun collect :: "('a \<Rightarrow> error + 'b) \<Rightarrow> 'a list \<Rightarrow> error + 'b list" where
  "collect f [] = Inr []"
| "collect f (x # xs) =
     (case f x of Inl e \<Rightarrow> Inl e
      | Inr y \<Rightarrow> (case collect f xs of Inl e \<Rightarrow> Inl e | Inr ys \<Rightarrow> Inr (y # ys)))"

definition convert_sentences_to_ids ::
  "tokenizer \<Rightarrow> string list \<Rightarrow> error + nat list list" where
  "convert_sentences_to_ids tok sentences = collect (encode tok) sentences"

definition convert_ids_to_sentences :: "tokenizer \<Rightarrow> nat list list \<Rightarrow> string list" where
  "convert_ids_to_sentences tok all_ids = map (decode tok) all_ids"

text \<open>
  The network is a parameter.  \<open>fwd batch_x beam_id pos vocab_id\<close> stands for
  \<^verbatim>\<open>softmax(self(batch_x)[beam_id][pos], dim=0)[vocab_id]\<close>: the forward computation
  on the padded batch followed by the softmax of lines 106--107.
\<close>

type_synonym model = "nat list list \<Rightarrow> nat \<Rightarrow> nat \<Rightarrow> nat \<Rightarrow> real"

subsection \<open>The per-candidate top-k buffer (lines 109--129)\<close>

text \<open>
  The \<^verbatim>\<open>'value'\<close> of a buffer entry is either the Python integer of the initial
  entries or a tensor scalar taken from the softmax output.
\<close>

datatype num = PyInt int | Tensor real

fun num_val :: "num \<Rightarrow> real" where
  "num_val (PyInt i) = real_of_int i"
| "num_val (Tensor r) = r"

record entry =
  vocab_id :: nat
  val :: num

definition sentinel :: "tokenizer \<Rightarrow> entry" where
  "sentinel tok = \<lparr>vocab_id = eos_token_id tok, val = PyInt 0\<rparr>"

text \<open>
  Lines 118--121: \<^verbatim>\<open>for level in range(beam_width)\<close> with the \<^verbatim>\<open>level -= 1; break\<close>
  exit.  The buffer always holds exactly \<^verbatim>\<open>beam_width\<close> entries, so the loop over the
  indices is a recursion over the buffer; \<open>level\<close> counts the index.  Without a break the
  loop variable ends as \<^verbatim>\<open>beam_width - 1\<close>.
\<close>

primrec scan_level :: "real \<Rightarrow> entry list \<Rightarrow> int \<Rightarrow> int" where
  "scan_level p [] level = level - 1"
| "scan_level p (e # es) level =
     (if p < num_val (val e) then level - 1 else scan_level p es (level + 1))"

text \<open>
  Lines 123--127: the shift \<^verbatim>\<open>top[tmp] = top[tmp + 1]\<close> for \<^verbatim>\<open>tmp in range(level)\<close>,
  then the store \<^verbatim>\<open>top[level] = new\<close>, where a negative \<open>level\<close> indexes from
  the end as Python does.
\<close>

definition shift_down :: "int \<Rightarrow> entry list \<Rightarrow> entry list" where
  "shift_down level buf = fold (\<lambda>tmp t. t[tmp := t ! (tmp + 1)]) [0..<nat level] buf"

definition store_at :: "int \<Rightarrow> entry \<Rightarrow> entry list \<Rightarrow> entry list" where
  "store_at level e buf =
     (if level < 0 then buf[nat (int (length buf) + level) := e] else buf[nat level := e])"

text \<open>One pass of the loop body of line 114, for one vocabulary id and its probability.\<close>

fun offer :: "nat \<Rightarrow> real \<Rightarrow> entry list \<Rightarrow> error + entry list" where
  "offer v p [] = Inl IndexError"
| "offer v p (e # es) =
     (if p < num_val (val e) then Inr (e # es)
      else let level = scan_level p (e # es) 0
           in Inr (store_at level \<lparr>vocab_id = v, val = Tensor p\<rparr> (shift_down level (e # es))))"

fun offer_all :: "(nat \<Rightarrow> real) \<Rightarrow> nat list \<Rightarrow> entry list \<Rightarrow> error + entry list" where
  "offer_all pr [] buf = Inr buf"
| "offer_all pr (v # vs) buf =
     (case offer v (pr v) buf of Inl e \<Rightarrow> Inl e | Inr buf' \<Rightarrow> offer_all pr vs buf')"

definition current_beam_top_value ::
  "tokenizer \<Rightarrow> int \<Rightarrow> (nat \<Rightarrow> real) \<Rightarrow> error + entry list" where
  "current_beam_top_value tok beam_width pr =
     offer_all pr [0..<vocab_size tok] (replicate (nat beam_width) (sentinel tok))"

subsection \<open>Global selection (lines 132--152)\<close>

text \<open>
  The scan of line 139 over the beams, carrying
  \<open>(max_value_beam_id, max_value_vocab_id, min_value)\<close>.  \<^verbatim>\<open>torch.log\<close> of the
  Python integer of an initial entry raises \<^verbatim>\<open>TypeError\<close>; of a tensor \<open>0\<close> it is
  \<open>-inf\<close>, so \<^verbatim>\<open>value\<close> is \<open>+inf\<close> and the test \<^verbatim>\<open>value < min_value\<close> fails
  (it also fails on the NaN of a negative argument).
\<close>

fun best_option ::
  "entry list list \<Rightarrow> real list \<Rightarrow> nat list \<Rightarrow> nat \<times> nat \<times> real \<Rightarrow> error + nat \<times> nat \<times> real" where
  "best_option top_value probs [] acc = Inr acc"
| "best_option top_value probs (beam_id # rest) (mb, mv, mn) =
     (if top_value ! beam_id = [] then Inl IndexError
      else case val (last (top_value ! beam_id)) of
        PyInt i \<Rightarrow> Inl TypeError
      | Tensor p \<Rightarrow>
          if 0 < p \<and> - ln p + probs ! beam_id < mn
          then best_option top_value probs rest
                 (beam_id, vocab_id (last (top_value ! beam_id)), - ln p + probs ! beam_id)
          else best_option top_value probs rest (mb, mv, mn))"

text \<open>
  The loop of line 134, \<open>n\<close> rounds left; an element of the result is
  \<open>(beam_id, vocab_id, value)\<close> of \<^verbatim>\<open>final_top_value\<close>.
\<close>

fun final_top_value ::
  "nat \<Rightarrow> tokenizer \<Rightarrow> entry list list \<Rightarrow> real list \<Rightarrow> error + (nat \<times> nat \<times> real) list" where
  "final_top_value 0 tok top_value probs = Inr []"
| "final_top_value (Suc n) tok top_value probs =
     (case best_option top_value probs [0..<length top_value] (0, eos_token_id tok, 999999999) of
        Inl e \<Rightarrow> Inl e
      | Inr (mb, mv, mn) \<Rightarrow>
          if length top_value \<le> mb then Inl KeyError
          else if top_value ! mb = [] then Inl IndexError
          else (case final_top_value n tok (top_value[mb := butlast (top_value ! mb)]) probs of
                  Inl e \<Rightarrow> Inl e
                | Inr rest \<Rightarrow> Inr ((mb, mv, mn) # rest)))"

subsection \<open>One iteration of the decoding loop (lines 81--159)\<close>

text \<open>
  \<^verbatim>\<open>all_ids\<close> and \<^verbatim>\<open>all_ids_prob\<close> are built in lockstep and always have the same
  length, so the pair of lists is one list of candidates \<open>(ids, score)\<close>.
\<close>

type_synonym candidate = "nat list \<times> real"

record beam_state =
  all_ids :: "candidate list"
  generate_result :: "nat list list"

text \<open>Lines 85--90: the active candidates and the grown \<^verbatim>\<open>generate_result\<close>.\<close>

fun split_active ::
  "tokenizer \<Rightarrow> int \<Rightarrow> int \<Rightarrow> candidate list \<Rightarrow> nat list list \<Rightarrow>
     error + candidate list \<times> nat list list" where
  "split_active tok beam_width max_len [] gr = Inr ([], gr)"
| "split_active tok beam_width max_len ((ids, pr) # rest) gr =
     (if ids = [] then Inl IndexError
      else if last ids \<noteq> eos_token_id tok \<and> int (length ids) < max_len then
        (case split_active tok beam_width max_len rest gr of
           Inl e \<Rightarrow> Inl e
         | Inr (active, gr') \<Rightarrow> Inr ((ids, pr) # active, gr'))
      else if int (length gr) < beam_width then
        split_active tok beam_width max_len rest (gr @ [ids])
      else split_active tok beam_width max_len rest gr)"

text \<open>Lines 96--99: right-padding of the batch to its longest row.\<close>

definition pad_sequence :: "nat \<Rightarrow> nat list list \<Rightarrow> nat list list" where
  "pad_sequence pad xs =
     (let m = foldr max (map length xs) 0
      in map (\<lambda>x. x @ replicate (m - length x) pad) xs)"

text \<open>Lines 104--129: one buffer per active candidate, read at its last un-padded position.\<close>

definition top_values ::
  "tokenizer \<Rightarrow> model \<Rightarrow> int \<Rightarrow> nat list list \<Rightarrow> nat list list \<Rightarrow> error + entry list list" where
  "top_values tok fwd beam_width batch_x active_ids =
     collect (\<lambda>beam_id. current_beam_top_value tok beam_width
                (fwd batch_x beam_id (length (active_ids ! beam_id) - 1)))
       [0..<length active_ids]"

text \<open>Lines 155--159.\<close>

definition expand :: "candidate list \<Rightarrow> (nat \<times> nat \<times> real) list \<Rightarrow> candidate list" where
  "expand active final = map (\<lambda>(b, v, s). (fst (active ! b) @ [v], s)) final"

text \<open>
  The outcome of one pass through the body of \<^verbatim>\<open>while True\<close>: the loop is left by
  \<^verbatim>\<open>break\<close>, an exception is raised (before or after the call of the network, whose
  batch is recorded), or the next pass starts after one call of the network.
\<close>

datatype step_result =
    Break "nat list list"
  | Raise "nat list list list" error
  | Next "nat list list" beam_state

definition iteration :: "tokenizer \<Rightarrow> model \<Rightarrow> int \<Rightarrow> int \<Rightarrow> beam_state \<Rightarrow> step_result" where
  "iteration tok fwd beam_width max_len st =
     (case split_active tok beam_width max_len (all_ids st) (generate_result st) of
        Inl e \<Rightarrow> Raise [] e
      | Inr (active, gr) \<Rightarrow>
          if active = [] \<or> beam_width \<le> int (length gr) then Break gr
          else
            let active_ids = map fst active;
                batch_x = pad_sequence (pad_token_id tok) active_ids
            in (case top_values tok fwd beam_width batch_x active_ids of
                  Inl e \<Rightarrow> Raise [batch_x] e
                | Inr top_value \<Rightarrow>
                    (case final_top_value (nat beam_width) tok top_value (map snd active) of
                       Inl e \<Rightarrow> Raise [batch_x] e
                     | Inr final \<Rightarrow>
                         Next batch_x \<lparr>all_ids = expand active final, generate_result = gr\<rparr>)))"

subsection \<open>The decoding loop (lines 80--94) and its termination\<close>

text \<open>
  The loop is \<^verbatim>\<open>while True\<close>.  Every active candidate is shorter than \<^verbatim>\<open>max_len\<close>
  and every new candidate is one token longer than an active one, so the largest distance
  of a candidate from \<^verbatim>\<open>max_len\<close> decreases with every pass that does not leave the loop.
\<close>

definition slack :: "int \<Rightarrow> candidate \<Rightarrow> nat" where
  "slack max_len c = nat (max_len - int (length (fst c)))"

definition potential :: "int \<Rightarrow> candidate list \<Rightarrow> nat" where
  "potential max_len cs = foldr max (map (slack max_len) cs) 0"

lemma potential_ge: "c \<in> set cs \<Longrightarrow> slack ml c \<le> potential ml cs"
  by (induction cs) (auto simp: potential_def)

lemma potential_less: "0 < n \<Longrightarrow> \<forall>c\<in>set cs. slack ml c < n \<Longrightarrow> potential ml cs < n"
  by (induction cs) (auto simp: potential_def)

lemma split_active_sound:
  "split_active tok bw ml cs gr = Inr (active, gr') \<Longrightarrow>
     set active \<subseteq> set cs \<and> (\<forall>c\<in>set active. fst c \<noteq> [] \<and> last (fst c) \<noteq> eos_token_id tok \<and> int (length (fst c)) < ml)"
proof (induction tok bw ml cs gr arbitrary: active gr' rule: split_active.induct)
  case (1 tok bw ml gr)
  then show ?case by simp
next
  case (2 tok bw ml ids pr rest gr)
  show ?case
  proof (cases "last ids \<noteq> eos_token_id tok \<and> int (length ids) < ml")
    case True
    with "2.prems" obtain a where a: "split_active tok bw ml rest gr = Inr (a, gr')"
      and act: "active = (ids, pr) # a" and ne: "ids \<noteq> []"
      by (auto split: if_splits sum.splits)
    from "2.IH"(1)[OF ne True a] True ne show ?thesis unfolding act by auto
  next
    case False
    with "2.prems" have ne: "ids \<noteq> []" by (auto split: if_splits)
    show ?thesis
    proof (cases "int (length gr) < bw")
      case True
      with "2.prems" False ne have "split_active tok bw ml rest (gr @ [ids]) = Inr (active, gr')"
        by (auto split: if_splits)
      from "2.IH"(2)[OF ne False True this] show ?thesis by auto
    next
      case nb: False
      with "2.prems" False ne have "split_active tok bw ml rest gr = Inr (active, gr')"
        by (auto split: if_splits)
      from "2.IH"(3)[OF ne False nb this] show ?thesis by auto
    qed
  qed
qed

lemma best_option_beam:
  "best_option tv probs bs (mb, mv, mn) = Inr (b, v, s) \<Longrightarrow> b = mb \<or> b \<in> set bs"
  by (induction bs arbitrary: mb mv mn) (auto split: if_splits num.splits)

lemma final_top_value_beam:
  "final_top_value n tok tv probs = Inr final \<Longrightarrow> \<forall>(b, v, s)\<in>set final. b < length tv"
proof (induction n arbitrary: tv final)
  case 0
  then show ?case by simp
next
  case (Suc n)
  then show ?case
    by (fastforce split: sum.splits prod.splits if_splits)
qed

lemma collect_length: "collect f xs = Inr ys \<Longrightarrow> length ys = length xs"
  by (induction xs arbitrary: ys) (auto split: sum.splits)

lemma top_values_length:
  "top_values tok fwd bw batch active_ids = Inr tv \<Longrightarrow> length tv = length active_ids"
  by (auto simp: top_values_def dest: collect_length)

lemma iteration_decreases:
  assumes "iteration tok fwd bw ml st = Next batch st'"
  shows "potential ml (all_ids st') < potential ml (all_ids st)"
proof -
  from assms obtain active gr tv final where
    sp: "split_active tok bw ml (all_ids st) (generate_result st) = Inr (active, gr)"
    and ne: "active \<noteq> []"
    and tv: "top_values tok fwd bw (pad_sequence (pad_token_id tok) (map fst active)) (map fst active) = Inr tv"
    and fin: "final_top_value (nat bw) tok tv (map snd active) = Inr final"
    and st': "all_ids st' = expand active final"
    by (auto simp: iteration_def Let_def split: sum.splits prod.splits if_splits)
  from sp have sub: "set active \<subseteq> set (all_ids st)"
    and act: "\<forall>c\<in>set active. int (length (fst c)) < ml"
    using split_active_sound by blast+
  from tv have len: "length tv = length active" by (auto dest: top_values_length)
  from ne obtain a where a: "a \<in> set active" by (cases active) auto
  with act have "0 < slack ml a" by (auto simp: slack_def)
  with a sub potential_ge[of a "all_ids st" ml] have pos: "0 < potential ml (all_ids st)" by auto
  have "\<forall>c\<in>set (expand active final). slack ml c < potential ml (all_ids st)"
  proof
    fix c assume "c \<in> set (expand active final)"
    then obtain b v s where bvs: "(b, v, s) \<in> set final" and c: "c = (fst (active ! b) @ [v], s)"
      by (auto simp: expand_def)
    from final_top_value_beam[OF fin] bvs len have b: "b < length active" by auto
    then have mem: "active ! b \<in> set active" by simp
    with act have "int (length (fst (active ! b))) < ml" by blast
    then have "slack ml c < slack ml (active ! b)" by (simp add: c slack_def)
    also have "\<dots> \<le> potential ml (all_ids st)" using mem sub potential_ge by blast
    finally show "slack ml c < potential ml (all_ids st)" .
  qed
  with pos show ?thesis unfolding st' by (rule potential_less)
qed

text \<open>
  The result pairs the batches handed to the network, in call order, with the outcome: the
  exception raised or \<^verbatim>\<open>generate_result\<close> at the \<^verbatim>\<open>break\<close>.
\<close>

function loop ::
  "tokenizer \<Rightarrow> model \<Rightarrow> int \<Rightarrow> int \<Rightarrow> beam_state \<Rightarrow> nat list list list \<times> (error + nat list list)" where
  "loop tok fwd beam_width max_len st =
     (case iteration tok fwd beam_width max_len st of
        Break gr \<Rightarrow> ([], Inr gr)
      | Raise calls e \<Rightarrow> (calls, Inl e)
      | Next batch_x st' \<Rightarrow>
          (case loop tok fwd beam_width max_len st' of (calls, r) \<Rightarrow> (batch_x # calls, r)))"
  by pat_completeness auto
termination
  by (relation "measure (\<lambda>(tok, fwd, bw, ml, st). potential ml (all_ids st))")
     (auto dest: iteration_decreases)

declare loop.simps [simp del]

subsection \<open>Post-processing and the decoder (lines 66--79 and 161--164)\<close>

text \<open>Lines 161--163; \<^verbatim>\<open>ids[-1]\<close> of an empty list raises.\<close>

definition strip_eos :: "tokenizer \<Rightarrow> nat list \<Rightarrow> error + nat list" where
  "strip_eos tok ids =
     (if ids = [] then Inl IndexError
      else if last ids = eos_token_id tok then Inr (butlast ids)
      else Inr ids)"

text \<open>
  Lines 77--159: the seed is converted (a failure of the tokenizer ends the call), then the
  loop starts from the seed candidate with score \<open>0\<close>.
\<close>

definition beam_search ::
  "tokenizer \<Rightarrow> model \<Rightarrow> string \<Rightarrow> int \<Rightarrow> int \<Rightarrow> nat list list list \<times> (error + nat list list)" where
  "beam_search tok fwd begin_of_sentence beam_width max_len =
     (case convert_sentences_to_ids tok [begin_of_sentence] of
        Inl e \<Rightarrow> ([], Inl e)
      | Inr ids \<Rightarrow> loop tok fwd beam_width max_len \<lparr>all_ids = zip ids [0], generate_result = []\<rparr>)"

text \<open>
  Lines 161--163 on every element of \<^verbatim>\<open>generate_result\<close>: the token-id sequences
  that are handed to \<^verbatim>\<open>convert_ids_to_sentences\<close>.
\<close>

definition generate_ids ::
  "tokenizer \<Rightarrow> model \<Rightarrow> string \<Rightarrow> int \<Rightarrow> int \<Rightarrow> nat list list list \<times> (error + nat list list)" where
  "generate_ids tok fwd begin_of_sentence beam_width max_len =
     (case beam_search tok fwd begin_of_sentence beam_width max_len of
        (calls, Inl e) \<Rightarrow> (calls, Inl e)
      | (calls, Inr gr) \<Rightarrow> (calls, collect (strip_eos tok) gr))"

text \<open>
  The whole method.  \<^verbatim>\<open>begin_of_sentence\<close> is \<^verbatim>\<open>None\<close> or a string; the first
  component of the result lists the batches on which the network was called.
\<close>

definition generator ::
  "tokenizer \<Rightarrow> model \<Rightarrow> string option \<Rightarrow> int \<Rightarrow> int \<Rightarrow>
     nat list list list \<times> (error + string list)" where
  "generator tok fwd begin_of_sentence beam_width max_len =
     (case begin_of_sentence of
        None \<Rightarrow> ([], Inl ValueError)
      | Some s \<Rightarrow>
          if length s = 0 then ([], Inl ValueError)
          else (case generate_ids tok fwd s beam_width max_len of
                  (calls, Inl e) \<Rightarrow> (calls, Inl e)
                | (calls, Inr stripped) \<Rightarrow>
                    (calls, Inr (convert_ids_to_sentences tok stripped))))"

text \<open>A token sequence whose last two tokens are both the end-of-sequence id.\<close>

definition ends_with_two_eos :: "tokenizer \<Rightarrow> nat list \<Rightarrow> bool" where
  "ends_with_two_eos tok ids \<longleftrightarrow>
     2 \<le> length ids \<and> last ids = eos_token_id tok \<and> last (butlast ids) = eos_token_id tok"

text \<open>The \<^verbatim>\<open>'value'\<close> of a buffer entry as a number.\<close>

abbreviation prob :: "entry \<Rightarrow> real" where "prob e \<equiv> num_val (val e)"

text \<open>
  The entry that lines 126--127 store for a vocabulary id, and the order in which entries lie
  in a buffer: by ascending value, the initial entries first among equal values, then the
  offered ids in the order of the offers.
\<close>

definition offered :: "(nat \<Rightarrow> real) \<Rightarrow> nat \<Rightarrow> entry" where
  "offered pr v = \<lparr>vocab_id = v, val = Tensor (pr v)\<rparr>"

definition precedes :: "entry \<Rightarrow> entry \<Rightarrow> bool" where
  "precedes a b \<longleftrightarrow>
     prob a < prob b \<or>
     (prob a = prob b \<and>
        (case val a of PyInt i \<Rightarrow> True
         | Tensor x \<Rightarrow> (case val b of PyInt j \<Rightarrow> False | Tensor y \<Rightarrow> vocab_id a < vocab_id b)))"


subsection \<open>A concrete tokenizer and concrete networks\<close>

text \<open>
  The vocabulary of the scenario of section 8 of the specification:
  \<open>pad = 0\<close>, \<open>eos = 1\<close>, \<open>a = 2\<close>, \<open>b = 3\<close>; one token per character, the
  full stop is the end-of-sequence token.
\<close>

definition tok4 :: tokenizer where
  "tok4 = \<lparr>eos_token_id = 1, pad_token_id = 0, vocab_size = 4,
           text_to_ids = map (\<lambda>c. if c = CHR ''a'' then 2 else if c = CHR ''.'' then 1 else 3),
           decode = map (\<lambda>i. if i = 2 then CHR ''a'' else if i = 1 then CHR ''.'' else CHR ''b'')\<rparr>"

text \<open>The same tokenizer, ignoring blanks: a text of blanks only has no token.\<close>

definition tok4_blank :: tokenizer where
  "tok4_blank =
     tok4\<lparr>text_to_ids := \<lambda>text. text_to_ids tok4 (filter (\<lambda>c. c \<noteq> CHR '' '') text)\<rparr>"

text \<open>A network that always predicts the end of the sequence with probability one.\<close>

definition fwd_eos :: model where
  "fwd_eos batch_x beam_id pos v = (if v = 1 then 1 else 0)"

text \<open>The network of the scenario: \<open>a\<close> until three tokens are there, then the end.\<close>

definition fwd_a3 :: model where
  "fwd_a3 batch_x beam_id pos v =
     (if pos + 1 < 3 then (if v = 2 then 1 else 0) else (if v = 1 then 1 else 0))"

text \<open>A network with the uniform distribution on the four ids.\<close>

definition fwd_uniform :: model where
  "fwd_uniform batch_x beam_id pos v = 1 / 4"

text \<open>
  A network with ties: the ids \<open>0\<close> and \<open>1\<close> have probability \<open>1/8\<close>, the ids \<open>2\<close>
  and \<open>3\<close> have \<open>3/8\<close>.
\<close>

definition fwd_tie :: model where
  "fwd_tie batch_x beam_id pos v = (if v < 2 then 1 / 8 else 3 / 8)"

section \<open>Properties\<close>

subsection \<open>Evaluation on the concrete networks\<close>

lemmas decoder_defs = generator_def generate_ids_def beam_search_def loop.simps iteration_def
  convert_sentences_to_ids_def encode_def convert_ids_to_sentences_def strip_eos_def top_values_def
  current_beam_top_value_def pad_sequence_def expand_def sentinel_def shift_down_def
  store_at_def tok4_def Let_def upt_rec eval_nat_numeral

lemma run_a3:
  "generator tok4 fwd_a3 (Some ''a'') 1 5 = ([[[2]], [[2, 2]], [[2, 2, 2]]], Inr [''aaa''])"
  by (simp add: decoder_defs fwd_a3_def)

subsection \<open>Reasoning about one pass and about the loop\<close>

lemma iteration_Next:
  assumes "iteration tok fwd bw ml st = Next batch st'"
  obtains active tv final where
    "split_active tok bw ml (all_ids st) (generate_result st) = Inr (active, generate_result st')"
    "active \<noteq> []" "int (length (generate_result st')) < bw"
    "batch = pad_sequence (pad_token_id tok) (map fst active)"
    "top_values tok fwd bw batch (map fst active) = Inr tv"
    "final_top_value (nat bw) tok tv (map snd active) = Inr final"
    "all_ids st' = expand active final"
  using assms
  by (auto simp: iteration_def Let_def split: sum.splits prod.splits if_splits)

lemma iteration_Break:
  assumes "iteration tok fwd bw ml st = Break gr"
  obtains active where
    "split_active tok bw ml (all_ids st) (generate_result st) = Inr (active, gr)"
    "active = [] \<or> bw \<le> int (length gr)"
  using assms
  by (auto simp: iteration_def Let_def split: sum.splits prod.splits if_splits)

lemma loop_result_rule:
  assumes "loop tok fwd bw ml st = (calls, Inr gr)"
    and "I st"
    and "\<And>s b s'. I s \<Longrightarrow> iteration tok fwd bw ml s = Next b s' \<Longrightarrow> I s'"
    and "\<And>s g. I s \<Longrightarrow> iteration tok fwd bw ml s = Break g \<Longrightarrow> Q g"
  shows "Q gr"
  using assms
proof (induction tok fwd bw ml st arbitrary: calls rule: loop.induct)
  case (1 tok fwd bw ml st)
  show ?case
  proof (cases "iteration tok fwd bw ml st")
    case (Break g)
    with "1.prems"(1) have "g = gr" by (simp add: loop.simps)
    with "1.prems"(2,4) Break show ?thesis by blast
  next
    case (Raise c e)
    with "1.prems"(1) show ?thesis by (simp add: loop.simps)
  next
    case (Next b s')
    with "1.prems"(1) obtain c where "loop tok fwd bw ml s' = (c, Inr gr)"
      by (auto simp: loop.simps split: prod.splits)
    moreover from "1.prems"(2,3) Next have "I s'" by blast
    ultimately show ?thesis using "1.IH"[OF Next] "1.prems"(3,4) by blast
  qed
qed

lemma split_active_result_length:
  "split_active tok bw ml cs gr = Inr (active, gr') \<Longrightarrow>
     int (length gr) \<le> bw \<Longrightarrow> int (length gr') \<le> bw"
  by (induction tok bw ml cs gr arbitrary: active gr' rule: split_active.induct)
     (auto split: if_splits sum.splits)

lemma beam_search_seed:
  "text_to_ids tok s \<noteq> [] \<Longrightarrow>
     beam_search tok fwd s bw ml =
       loop tok fwd bw ml \<lparr>all_ids = [(text_to_ids tok s, 0)], generate_result = []\<rparr>"
  by (simp add: beam_search_def convert_sentences_to_ids_def encode_def)

lemma beam_search_unencodable:
  "text_to_ids tok s = [] \<Longrightarrow> beam_search tok fwd s bw ml = ([], Inl InvalidInputError)"
  by (simp add: beam_search_def convert_sentences_to_ids_def encode_def)

lemma beam_search_Inr:
  assumes "beam_search tok fwd s bw ml = (calls, Inr gr)"
  shows "text_to_ids tok s \<noteq> []"
    and "loop tok fwd bw ml \<lparr>all_ids = [(text_to_ids tok s, 0)], generate_result = []\<rparr>
           = (calls, Inr gr)"
proof -
  show ne: "text_to_ids tok s \<noteq> []"
    using assms by (auto simp: beam_search_unencodable)
  show "loop tok fwd bw ml \<lparr>all_ids = [(text_to_ids tok s, 0)], generate_result = []\<rparr>
           = (calls, Inr gr)"
    using assms by (simp add: beam_search_seed[OF ne])
qed

lemma beam_search_length:
  assumes "beam_search tok fwd s bw ml = (calls, Inr gr)" and "0 \<le> bw"
  shows "int (length gr) \<le> bw"
proof (rule loop_result_rule[where I = "\<lambda>st. int (length (generate_result st)) \<le> bw"
        and Q = "\<lambda>g. int (length g) \<le> bw", OF beam_search_Inr(2)[OF assms(1)]])
  show "int (length (generate_result \<lparr>all_ids = [(text_to_ids tok s, 0)], generate_result = []\<rparr>)) \<le> bw"
    using assms(2) by simp
next
  fix st b st'
  assume "int (length (generate_result st)) \<le> bw" "iteration tok fwd bw ml st = Next b st'"
  then show "int (length (generate_result st')) \<le> bw"
    by (auto elim!: iteration_Next)
next
  fix st g
  assume "int (length (generate_result st)) \<le> bw" "iteration tok fwd bw ml st = Break g"
  then show "int (length g) \<le> bw"
    by (auto elim!: iteration_Break dest: split_active_result_length)
qed

subsection \<open>The number of returned sentences\<close>

text \<open>
  Claim C1.  Whenever \<^verbatim>\<open>generator\<close> is called with \<^verbatim>\<open>beam_width >= 1\<close> and
  \<^verbatim>\<open>max_len >= 1\<close> and returns normally, it returns at most \<^verbatim>\<open>beam_width\<close>
  sentences.
\<close>

theorem generator_at_most_beam_width:
  assumes "generator tok fwd begin_of_sentence beam_width max_len = (calls, Inr sentences)"
    and "1 \<le> beam_width" and "1 \<le> max_len"
  shows "int (length sentences) \<le> beam_width"
proof -
  from assms(1) obtain s stripped where
    g: "generate_ids tok fwd s beam_width max_len = (calls, Inr stripped)"
    and sen: "sentences = convert_ids_to_sentences tok stripped"
    by (auto simp: generator_def split: option.splits if_splits prod.splits sum.splits)
  from g obtain gr where b: "beam_search tok fwd s beam_width max_len = (calls, Inr gr)"
    and c: "collect (strip_eos tok) gr = Inr stripped"
    by (auto simp: generate_ids_def split: prod.splits sum.splits)
  from beam_search_length[OF b] assms(2) have "int (length gr) \<le> beam_width" by simp
  with collect_length[OF c] show ?thesis by (simp add: sen convert_ids_to_sentences_def)
qed


theorem generator_at_most_beam_width_witness:
  "generator tok4 fwd_a3 (Some ''a'') 1 5 = ([[[2]], [[2, 2]], [[2, 2, 2]]], Inr [''aaa''])
   \<and> (1::int) \<le> 1 \<and> (1::int) \<le> 5 \<and> int (length [''aaa'']) \<le> 1"
  using generator_at_most_beam_width[OF run_a3] by (simp add: run_a3)

subsection \<open>Properties of every candidate\<close>

lemma split_active_result_subset:
  "split_active tok bw ml cs gr = Inr (active, gr') \<Longrightarrow> set gr' \<subseteq> set gr \<union> fst ` set cs"
proof (induction tok bw ml cs gr arbitrary: active gr' rule: split_active.induct)
  case (1 tok bw ml gr)
  then show ?case by simp
next
  case (2 tok bw ml ids pr rest gr)
  from "2.prems" have ne: "ids \<noteq> []" by (auto split: if_splits)
  show ?case
  proof (cases "last ids \<noteq> eos_token_id tok \<and> int (length ids) < ml")
    case True
    with "2.prems" ne obtain a where a: "split_active tok bw ml rest gr = Inr (a, gr')"
      by (auto split: if_splits sum.splits)
    from "2.IH"(1)[OF ne True a] show ?thesis by auto
  next
    case False
    show ?thesis
    proof (cases "int (length gr) < bw")
      case True
      with "2.prems" False ne have "split_active tok bw ml rest (gr @ [ids]) = Inr (active, gr')"
        by (auto split: if_splits)
      from "2.IH"(2)[OF ne False True this] show ?thesis by auto
    next
      case nb: False
      with "2.prems" False ne have "split_active tok bw ml rest gr = Inr (active, gr')"
        by (auto split: if_splits)
      from "2.IH"(3)[OF ne False nb this] show ?thesis by auto
    qed
  qed
qed

lemma split_active_result_nonempty:
  "split_active tok bw ml cs gr = Inr (active, gr') \<Longrightarrow> [] \<notin> fst ` set cs"
proof (induction tok bw ml cs gr arbitrary: active gr' rule: split_active.induct)
  case (1 tok bw ml gr)
  then show ?case by simp
next
  case (2 tok bw ml ids pr rest gr)
  from "2.prems" have ne: "ids \<noteq> []" by (auto split: if_splits)
  show ?case
  proof (cases "last ids \<noteq> eos_token_id tok \<and> int (length ids) < ml")
    case True
    with "2.prems" ne obtain a where a: "split_active tok bw ml rest gr = Inr (a, gr')"
      by (auto split: if_splits sum.splits)
    from "2.IH"(1)[OF ne True a] ne show ?thesis by auto
  next
    case False
    show ?thesis
    proof (cases "int (length gr) < bw")
      case True
      with "2.prems" False ne have "split_active tok bw ml rest (gr @ [ids]) = Inr (active, gr')"
        by (auto split: if_splits)
      from "2.IH"(2)[OF ne False True this] ne show ?thesis by auto
    next
      case nb: False
      with "2.prems" False ne have "split_active tok bw ml rest gr = Inr (active, gr')"
        by (auto split: if_splits)
      from "2.IH"(3)[OF ne False nb this] ne show ?thesis by auto
    qed
  qed
qed

lemma iteration_children:
  assumes "iteration tok fwd bw ml st = Next batch st'" and "c \<in> set (all_ids st')"
  obtains parent v where "parent \<in> set (all_ids st)" "fst c = fst parent @ [v]"
    "fst parent \<noteq> []" "last (fst parent) \<noteq> eos_token_id tok" "int (length (fst parent)) < ml"
proof -
  from assms(1) obtain active tv final where
    sp: "split_active tok bw ml (all_ids st) (generate_result st) = Inr (active, generate_result st')"
    and tv: "top_values tok fwd bw batch (map fst active) = Inr tv"
    and fin: "final_top_value (nat bw) tok tv (map snd active) = Inr final"
    and st': "all_ids st' = expand active final"
    by (rule iteration_Next)
  from assms(2) st' obtain b v s where bvs: "(b, v, s) \<in> set final"
    and c: "c = (fst (active ! b) @ [v], s)"
    by (auto simp: expand_def)
  from final_top_value_beam[OF fin] bvs top_values_length[OF tv] have "b < length active" by auto
  then have mem: "active ! b \<in> set active" by simp
  with split_active_sound[OF sp] have "active ! b \<in> set (all_ids st)"
    "fst (active ! b) \<noteq> []" "last (fst (active ! b)) \<noteq> eos_token_id tok"
    "int (length (fst (active ! b))) < ml" by blast+
  with c that show ?thesis by simp
qed

lemma iteration_Next_result:
  assumes "iteration tok fwd bw ml st = Next batch st'"
  shows "set (generate_result st') \<subseteq> set (generate_result st) \<union> fst ` set (all_ids st)"
    and "[] \<notin> fst ` set (all_ids st)"
proof -
  from assms obtain active where
    "split_active tok bw ml (all_ids st) (generate_result st) = Inr (active, generate_result st')"
    by (rule iteration_Next)
  then show "set (generate_result st') \<subseteq> set (generate_result st) \<union> fst ` set (all_ids st)"
    and "[] \<notin> fst ` set (all_ids st)"
    by (rule split_active_result_subset, rule split_active_result_nonempty)
qed

lemma iteration_Break_result:
  assumes "iteration tok fwd bw ml st = Break gr"
  shows "set gr \<subseteq> set (generate_result st) \<union> fst ` set (all_ids st)"
    and "[] \<notin> fst ` set (all_ids st)"
proof -
  from assms obtain active where
    "split_active tok bw ml (all_ids st) (generate_result st) = Inr (active, gr)"
    by (rule iteration_Break)
  then show "set gr \<subseteq> set (generate_result st) \<union> fst ` set (all_ids st)"
    and "[] \<notin> fst ` set (all_ids st)"
    by (rule split_active_result_subset, rule split_active_result_nonempty)
qed

text \<open>A property of every sequence that was ever a candidate holds for the result.\<close>

lemma beam_search_all:
  assumes run: "beam_search tok fwd s bw ml = (calls, Inr gr)"
    and seed: "P (text_to_ids tok s)"
    and child: "\<And>parent v. P parent \<Longrightarrow> parent \<noteq> [] \<Longrightarrow> last parent \<noteq> eos_token_id tok \<Longrightarrow>
                  int (length parent) < ml \<Longrightarrow> P (parent @ [v])"
  shows "\<forall>ids\<in>set gr. P ids \<and> ids \<noteq> []"
proof (rule loop_result_rule[where
      I = "\<lambda>st. (\<forall>c\<in>set (all_ids st). P (fst c)) \<and> (\<forall>ids\<in>set (generate_result st). P ids \<and> ids \<noteq> [])"
      and Q = "\<lambda>g. \<forall>ids\<in>set g. P ids \<and> ids \<noteq> []", OF beam_search_Inr(2)[OF run]])
  show "(\<forall>c\<in>set (all_ids \<lparr>all_ids = [(text_to_ids tok s, 0)], generate_result = []\<rparr>). P (fst c)) \<and>
    (\<forall>ids\<in>set (generate_result \<lparr>all_ids = [(text_to_ids tok s, 0)], generate_result = []\<rparr>). P ids \<and> ids \<noteq> [])"
    using seed by simp
next
  fix st b st'
  assume I: "(\<forall>c\<in>set (all_ids st). P (fst c)) \<and> (\<forall>ids\<in>set (generate_result st). P ids \<and> ids \<noteq> [])"
    and it: "iteration tok fwd bw ml st = Next b st'"
  have "\<forall>c\<in>set (all_ids st'). P (fst c)"
  proof
    fix c assume "c \<in> set (all_ids st')"
    with it obtain parent v where "parent \<in> set (all_ids st)" "fst c = fst parent @ [v]"
      "fst parent \<noteq> []" "last (fst parent) \<noteq> eos_token_id tok" "int (length (fst parent)) < ml"
      by (rule iteration_children)
    with I child show "P (fst c)" by auto
  qed
  moreover have "\<forall>ids\<in>set (generate_result st'). P ids \<and> ids \<noteq> []"
  proof
    fix ids assume "ids \<in> set (generate_result st')"
    with iteration_Next_result[OF it] have "ids \<in> set (generate_result st) \<or> ids \<in> fst ` set (all_ids st)"
      and "ids \<in> fst ` set (all_ids st) \<longrightarrow> ids \<noteq> []" by blast+
    with I show "P ids \<and> ids \<noteq> []" by auto
  qed
  ultimately show "(\<forall>c\<in>set (all_ids st'). P (fst c)) \<and> (\<forall>ids\<in>set (generate_result st'). P ids \<and> ids \<noteq> [])"
    by blast
next
  fix st g
  assume I: "(\<forall>c\<in>set (all_ids st). P (fst c)) \<and> (\<forall>ids\<in>set (generate_result st). P ids \<and> ids \<noteq> [])"
    and it: "iteration tok fwd bw ml st = Break g"
  show "\<forall>ids\<in>set g. P ids \<and> ids \<noteq> []"
  proof
    fix ids assume "ids \<in> set g"
    with iteration_Break_result[OF it] have "ids \<in> set (generate_result st) \<or> ids \<in> fst ` set (all_ids st)"
      and "ids \<in> fst ` set (all_ids st) \<longrightarrow> ids \<noteq> []" by blast+
    with I show "P ids \<and> ids \<noteq> []" by auto
  qed
qed

lemma loop_Break: "iteration tok fwd bw ml st = Break gr \<Longrightarrow> loop tok fwd bw ml st = ([], Inr gr)"
  by (simp add: loop.simps)

lemma loop_Raise: "iteration tok fwd bw ml st = Raise c e \<Longrightarrow> loop tok fwd bw ml st = (c, Inl e)"
  by (simp add: loop.simps)

subsection \<open>The length of the returned sequences\<close>

lemma run_long_seed: "beam_search tok4 fwd_uniform ''aaa'' 1 1 = ([], Inr [[2, 2, 2]])"
  by (simp add: decoder_defs)

text \<open>
  Claim C6, as stated, fails: a seed whose tokenization is longer than \<^verbatim>\<open>max_len\<close> is
  never active, so it is returned as it is.  Here \<^verbatim>\<open>max_len = 1\<close> and the returned
  sequence has three tokens.
\<close>

theorem long_seed_exceeds_max_len:
  "beam_search tok4 fwd_uniform ''aaa'' 1 1 = ([], Inr [[2, 2, 2]]) \<and> \<not> int (length [2, 2, 2 :: nat]) \<le> 1"
  by (simp add: run_long_seed)

text \<open>
  Claim C6, amended.  Every sequence in \<^verbatim>\<open>generate_result\<close> (before the trailing
  end-of-sequence token is stripped) is at most as long as the larger of \<^verbatim>\<open>max_len\<close> and
  the length of the seed's tokenization.
\<close>

theorem result_length_bound:
  assumes "beam_search tok fwd s beam_width max_len = (calls, Inr gr)"
  shows "\<forall>ids\<in>set gr. int (length ids) \<le> max max_len (int (length (text_to_ids tok s)))"
proof -
  have "\<forall>ids\<in>set gr. int (length ids) \<le> max max_len (int (length (text_to_ids tok s))) \<and> ids \<noteq> []"
    by (rule beam_search_all[where P = "\<lambda>ids. int (length ids) \<le> max max_len (int (length (text_to_ids tok s)))", OF assms]) auto
  then show ?thesis by blast
qed

theorem result_length_bound_witness:
  "beam_search tok4 fwd_uniform ''aaa'' 1 1 = ([], Inr [[2, 2, 2]])
   \<and> int (length [2, 2, 2 :: nat]) \<le> max 1 (int (length (text_to_ids tok4 ''aaa'')))"
  using result_length_bound[OF run_long_seed] by (simp add: run_long_seed)

subsection \<open>Stripping the end-of-sequence token\<close>

lemma collect_strip_eos:
  "collect (strip_eos tok) gr = Inr stripped \<Longrightarrow>
     [] \<notin> set gr \<and>
     stripped = map (\<lambda>ids. if last ids = eos_token_id tok then butlast ids else ids) gr"
  by (induction gr arbitrary: stripped) (auto simp: strip_eos_def split: sum.splits if_splits)

lemma run_two_eos: "generate_ids tok4 fwd_uniform ''a..'' 1 5 = ([], Inr [[2, 1]])"
  by (simp add: decoder_defs)

lemma run_eos_seed: "generate_ids tok4 fwd_uniform ''.'' 1 5 = ([], Inr [[]])"
  by (simp add: decoder_defs)

text \<open>
  Claim C9, as stated, fails in two ways.  For a seed whose tokenization ends with two
  end-of-sequence tokens the returned sequence still ends with one, and stripping again
  changes it.  For a seed whose tokenization is the end-of-sequence token alone the returned
  sequence is empty, and the stripping step applied to it again raises \<^verbatim>\<open>IndexError\<close>
  instead of leaving it unchanged.
\<close>

theorem strip_leaves_eos:
  "generate_ids tok4 fwd_uniform ''a..'' 1 5 = ([], Inr [[2, 1]])
   \<and> last [2, 1] = eos_token_id tok4 \<and> strip_eos tok4 [2, 1] = Inr [2]
   \<and> generate_ids tok4 fwd_uniform ''.'' 1 5 = ([], Inr [[]])
   \<and> strip_eos tok4 [] = Inl IndexError"
  by (simp add: run_two_eos run_eos_seed) (simp add: tok4_def strip_eos_def)

text \<open>
  Claim C9, amended.  Post-processing removes exactly one trailing end-of-sequence token from
  every sequence of \<^verbatim>\<open>generate_result\<close> that ends with one, and changes nothing else.
  Unless the seed's tokenization itself ends with two end-of-sequence tokens, no returned
  sequence ends with the end-of-sequence id.  Unless the seed's tokenization ends with two
  end-of-sequence tokens or is the end-of-sequence token alone, stripping a returned sequence
  again leaves it unchanged.
\<close>

theorem strip_eos_once:
  assumes "generate_ids tok fwd s beam_width max_len = (calls, Inr stripped)"
  shows "\<exists>gr. beam_search tok fwd s beam_width max_len = (calls, Inr gr)
           \<and> [] \<notin> set gr
           \<and> stripped = map (\<lambda>ids. if last ids = eos_token_id tok then butlast ids else ids) gr
           \<and> (\<not> ends_with_two_eos tok (text_to_ids tok s) \<longrightarrow>
                (\<forall>ids\<in>set stripped. ids = [] \<or> last ids \<noteq> eos_token_id tok))
           \<and> (\<not> ends_with_two_eos tok (text_to_ids tok s)
                \<and> text_to_ids tok s \<noteq> [eos_token_id tok] \<longrightarrow>
                (\<forall>ids\<in>set stripped. strip_eos tok ids = Inr ids))"
proof -
  let ?strip = "\<lambda>ids. if last ids = eos_token_id tok then butlast ids else ids"
  from assms obtain gr where run: "beam_search tok fwd s beam_width max_len = (calls, Inr gr)"
    and col: "collect (strip_eos tok) gr = Inr stripped"
    by (auto simp: generate_ids_def split: prod.splits sum.splits)
  from collect_strip_eos[OF col]
  have ne: "[] \<notin> set gr" and st: "stripped = map ?strip gr"
    by simp_all
  have no_eos: "\<forall>ids\<in>set stripped. ids = [] \<or> last ids \<noteq> eos_token_id tok"
    if seed: "\<not> ends_with_two_eos tok (text_to_ids tok s)"
  proof -
    have good: "\<forall>ids\<in>set gr. \<not> ends_with_two_eos tok ids \<and> ids \<noteq> []"
    proof (rule beam_search_all[where P = "\<lambda>ids. \<not> ends_with_two_eos tok ids", OF run])
      show "\<not> ends_with_two_eos tok (text_to_ids tok s)" by (rule seed)
    next
      fix parent :: "nat list" and v
      assume "parent \<noteq> []" "last parent \<noteq> eos_token_id tok"
      then show "\<not> ends_with_two_eos tok (parent @ [v])"
        by (simp add: ends_with_two_eos_def butlast_append)
    qed
    show ?thesis
    proof
      fix ids assume "ids \<in> set stripped"
      with st obtain g where g: "g \<in> set gr" and ids: "ids = ?strip g" by auto
      from good g have ng: "\<not> ends_with_two_eos tok g" and gne: "g \<noteq> []" by auto
      show "ids = [] \<or> last ids \<noteq> eos_token_id tok"
      proof (cases "last g = eos_token_id tok")
        case True
        from gne obtain xs x where gx: "g = xs @ [x]" by (cases g rule: rev_cases) auto
        with True have "ids = xs" by (simp add: ids)
        moreover from ng gx True have "xs = [] \<or> last xs \<noteq> eos_token_id tok"
          by (cases xs) (auto simp: ends_with_two_eos_def)
        ultimately show ?thesis by simp
      next
        case False
        then show ?thesis by (simp add: ids)
      qed
    qed
  qed
  have idem: "\<forall>ids\<in>set stripped. strip_eos tok ids = Inr ids"
    if seed: "\<not> ends_with_two_eos tok (text_to_ids tok s)"
      and seed': "text_to_ids tok s \<noteq> [eos_token_id tok]"
  proof -
    have long: "\<forall>ids\<in>set gr. ids \<noteq> [eos_token_id tok] \<and> ids \<noteq> []"
    proof (rule beam_search_all[where P = "\<lambda>ids. ids \<noteq> [eos_token_id tok]", OF run])
      show "text_to_ids tok s \<noteq> [eos_token_id tok]" by (rule seed')
    next
      fix parent :: "nat list" and v
      assume "parent \<noteq> []"
      then show "parent @ [v] \<noteq> [eos_token_id tok]" by simp
    qed
    show ?thesis
    proof
      fix ids assume mem: "ids \<in> set stripped"
      with st obtain g where g: "g \<in> set gr" and ids: "ids = ?strip g" by auto
      from long g have g1: "g \<noteq> [eos_token_id tok]" and gne: "g \<noteq> []" by auto
      from no_eos[OF seed] mem have a: "ids = [] \<or> last ids \<noteq> eos_token_id tok" by blast
      have "ids \<noteq> []"
      proof (cases "last g = eos_token_id tok")
        case True
        from gne obtain xs x where gx: "g = xs @ [x]" by (cases g rule: rev_cases) auto
        with True g1 have "xs \<noteq> []" by auto
        with gx True show ?thesis by (simp add: ids)
      next
        case False
        with gne show ?thesis by (simp add: ids)
      qed
      with a show "strip_eos tok ids = Inr ids" by (simp add: strip_eos_def)
    qed
  qed
  from run ne st no_eos idem show ?thesis by blast
qed

lemma run_a3_ids:
  "generate_ids tok4 fwd_a3 ''a'' 1 5 = ([[[2]], [[2, 2]], [[2, 2, 2]]], Inr [[2, 2, 2]])"
  by (simp add: decoder_defs fwd_a3_def)

lemma run_a3_search:
  "beam_search tok4 fwd_a3 ''a'' 1 5 = ([[[2]], [[2, 2]], [[2, 2, 2]]], Inr [[2, 2, 2, 1]])"
  by (simp add: decoder_defs fwd_a3_def)

lemma run_two_eos_search: "beam_search tok4 fwd_uniform ''a..'' 1 5 = ([], Inr [[2, 1, 1]])"
  by (simp add: decoder_defs)

lemma tok4_a: "eos_token_id tok4 = 1" "text_to_ids tok4 ''a'' = [2]"
  by (simp_all add: tok4_def)

theorem strip_eos_once_witness:
  "generate_ids tok4 fwd_a3 ''a'' 1 5 = ([[[2]], [[2, 2]], [[2, 2, 2]]], Inr [[2, 2, 2]])
   \<and> beam_search tok4 fwd_a3 ''a'' 1 5 = ([[[2]], [[2, 2]], [[2, 2, 2]]], Inr [[2, 2, 2, 1]])
   \<and> \<not> ends_with_two_eos tok4 (text_to_ids tok4 ''a'')
   \<and> text_to_ids tok4 ''a'' \<noteq> [eos_token_id tok4]
   \<and> last [2, 2, 2 :: nat] \<noteq> eos_token_id tok4
   \<and> strip_eos tok4 [2, 2, 2] = Inr [2, 2, 2]
   \<and> generate_ids tok4 fwd_uniform ''a..'' 1 5 = ([], Inr [[2, 1]])
   \<and> beam_search tok4 fwd_uniform ''a..'' 1 5 = ([], Inr [[2, 1, 1]])
   \<and> [[2, 1]] = map (\<lambda>ids. if last ids = eos_token_id tok4 then butlast ids else ids) [[2, 1, 1]]"
  using strip_eos_once[OF run_a3_ids] strip_eos_once[OF run_two_eos]
  unfolding run_a3_search run_two_eos_search
  by (simp add: run_a3_ids run_a3_search run_two_eos run_two_eos_search tok4_a
      ends_with_two_eos_def strip_eos_def)

subsection \<open>Input validation\<close>

lemma run_zero_beam: "generator tok4 fwd_uniform (Some ''a'') 0 3 = ([], Inr [])"
  by (simp add: decoder_defs)

lemma run_zero_len: "generator tok4 fwd_uniform (Some ''a'') 1 0 = ([], Inr [''a''])"
  by (simp add: decoder_defs)

text \<open>
  Claim C3, as stated, fails: \<^verbatim>\<open>beam_width\<close> and \<^verbatim>\<open>max_len\<close> are never validated.
  With \<^verbatim>\<open>beam_width = 0\<close> the call returns the empty list, with \<^verbatim>\<open>max_len = 0\<close>
  it returns the seed.
\<close>

theorem nonpositive_arguments_return:
  "generator tok4 fwd_uniform (Some ''a'') 0 3 = ([], Inr [])
   \<and> generator tok4 fwd_uniform (Some ''a'') 1 0 = ([], Inr [''a''])"
  by (simp add: run_zero_beam run_zero_len)

lemma beam_search_nonpositive_beam:
  assumes "text_to_ids tok s \<noteq> []" and "beam_width \<le> 0"
  shows "beam_search tok fwd s beam_width max_len = ([], Inr [])"
  unfolding beam_search_seed[OF assms(1)]
  by (rule loop_Break) (use assms in \<open>simp add: iteration_def\<close>)

lemma beam_search_nonpositive_len:
  assumes "text_to_ids tok s \<noteq> []" and "1 \<le> beam_width" and "max_len \<le> 0"
  shows "beam_search tok fwd s beam_width max_len = ([], Inr [text_to_ids tok s])"
  unfolding beam_search_seed[OF assms(1)]
  by (rule loop_Break) (use assms in \<open>simp add: iteration_def\<close>)

text \<open>
  Claim C3, amended.  A missing or empty seed text raises \<^verbatim>\<open>ValueError\<close>, and a seed
  text that the tokenizer cannot encode raises the tokenizer's \<^verbatim>\<open>InvalidInputError\<close>,
  both before the network is called.  A non-positive \<^verbatim>\<open>beam_width\<close> or \<^verbatim>\<open>max_len\<close>
  is not rejected: the call returns normally, without calling the network, the empty list
  for \<^verbatim>\<open>beam_width <= 0\<close> and the seed alone for \<^verbatim>\<open>max_len <= 0\<close> with
  \<^verbatim>\<open>beam_width >= 1\<close>.
\<close>

theorem generator_input_validation:
  "(begin_of_sentence = None \<or> begin_of_sentence = Some [] \<longrightarrow>
      generator tok fwd begin_of_sentence beam_width max_len = ([], Inl ValueError))
   \<and> (begin_of_sentence = Some s \<and> s \<noteq> [] \<and> encode tok s = Inl InvalidInputError \<longrightarrow>
      generator tok fwd begin_of_sentence beam_width max_len = ([], Inl InvalidInputError))
   \<and> (begin_of_sentence = Some s \<and> s \<noteq> [] \<and> encode tok s = Inr ids \<and> beam_width \<le> 0 \<longrightarrow>
      generator tok fwd begin_of_sentence beam_width max_len = ([], Inr []))
   \<and> (begin_of_sentence = Some s \<and> s \<noteq> [] \<and> encode tok s = Inr ids
        \<and> 1 \<le> beam_width \<and> max_len \<le> 0 \<longrightarrow>
      generator tok fwd begin_of_sentence beam_width max_len =
        ([], Inr [decode tok (if last ids = eos_token_id tok then butlast ids else ids)]))"
proof (intro conjI impI)
  assume "begin_of_sentence = None \<or> begin_of_sentence = Some []"
  then show "generator tok fwd begin_of_sentence beam_width max_len = ([], Inl ValueError)"
    by (auto simp: generator_def)
next
  assume a: "begin_of_sentence = Some s \<and> s \<noteq> [] \<and> encode tok s = Inl InvalidInputError"
  then have "text_to_ids tok s = []" by (auto simp: encode_def split: if_splits)
  with a show "generator tok fwd begin_of_sentence beam_width max_len = ([], Inl InvalidInputError)"
    by (simp add: generator_def generate_ids_def beam_search_unencodable)
next
  assume a: "begin_of_sentence = Some s \<and> s \<noteq> [] \<and> encode tok s = Inr ids \<and> beam_width \<le> 0"
  then have "text_to_ids tok s \<noteq> []" by (auto simp: encode_def split: if_splits)
  with a show "generator tok fwd begin_of_sentence beam_width max_len = ([], Inr [])"
    by (simp add: generator_def generate_ids_def beam_search_nonpositive_beam
        convert_ids_to_sentences_def)
next
  assume a: "begin_of_sentence = Some s \<and> s \<noteq> [] \<and> encode tok s = Inr ids
        \<and> 1 \<le> beam_width \<and> max_len \<le> 0"
  then have "text_to_ids tok s \<noteq> []" and "ids = text_to_ids tok s"
    by (auto simp: encode_def split: if_splits)
  with a show "generator tok fwd begin_of_sentence beam_width max_len =
        ([], Inr [decode tok (if last ids = eos_token_id tok then butlast ids else ids)])"
    by (simp add: generator_def generate_ids_def beam_search_nonpositive_len
        convert_ids_to_sentences_def strip_eos_def)
qed

theorem generator_input_validation_witness:
  "generator tok4 fwd_uniform (Some []) 1 5 = ([], Inl ValueError)
   \<and> encode tok4_blank '' '' = Inl InvalidInputError
   \<and> generator tok4_blank fwd_uniform (Some '' '') 1 5 = ([], Inl InvalidInputError)
   \<and> encode tok4 ''a'' = Inr [2]
   \<and> generator tok4 fwd_uniform (Some ''a'') 0 3 = ([], Inr [])
   \<and> generator tok4 fwd_uniform (Some ''a'') 1 0 = ([], Inr [''a''])"
  using generator_input_validation[of "Some []" tok4 fwd_uniform 1 5 "[]" "[]"]
    generator_input_validation[of "Some '' ''" tok4_blank fwd_uniform 1 5 "'' ''" "[]"]
    generator_input_validation[of "Some ''a''" tok4 fwd_uniform 0 3 "''a''" "[2]"]
    generator_input_validation[of "Some ''a''" tok4 fwd_uniform 1 0 "''a''" "[2]"]
  by (simp add: tok4_def tok4_blank_def encode_def)

subsection \<open>A beam wider than the vocabulary\<close>

lemma wide_beam_buffer:
  "current_beam_top_value tok4 5 (fwd_uniform [[2]] 0 0) =
     Inr [sentinel tok4,
          \<lparr>vocab_id = 0, val = Tensor (1 / 4)\<rparr>, \<lparr>vocab_id = 1, val = Tensor (1 / 4)\<rparr>,
          \<lparr>vocab_id = 2, val = Tensor (1 / 4)\<rparr>, \<lparr>vocab_id = 3, val = Tensor (1 / 4)\<rparr>]"
  by (simp add: decoder_defs fwd_uniform_def)

text \<open>
  Claim C10.  For every \<^verbatim>\<open>beam_width >= 1\<close> and every seed that passes the validation the
  decoder is to return at least one sequence.  It does not when the beam is wider than the
  vocabulary: a buffer of \<^verbatim>\<open>beam_width\<close> entries that was offered fewer ids keeps
  initial entries, whose \<^verbatim>\<open>'value'\<close> is the Python integer \<open>0\<close>; the global selection
  reaches one of them in a later round, and \<^verbatim>\<open>torch.log\<close> of it raises \<^verbatim>\<open>TypeError\<close>
  (line 140).  With four ids, the seed \<open>a\<close> and \<^verbatim>\<open>beam_width = 5\<close> the call raises after
  one call of the network and returns nothing.
\<close>

theorem wide_beam_raises:
  "generator tok4 fwd_uniform (Some ''a'') 5 3 = ([[[2]]], Inl TypeError)"
  by (simp add: decoder_defs fwd_uniform_def)

subsection \<open>The top-k buffer in closed form\<close>

lemma scan_level_eq:
  "scan_level p buf l = l + int (length (takeWhile (\<lambda>e. prob e \<le> p) buf)) - 1"
  by (induction buf arbitrary: l) (auto simp: not_less)

lemma shift_fold_eq:
  "k < length buf \<Longrightarrow>
     fold (\<lambda>tmp t. t[tmp := t ! (tmp + 1)]) [0..<k] buf = take k (tl buf) @ drop k buf"
proof (induction k)
  case 0
  then show ?case by simp
next
  case (Suc k)
  then have k: "k < length buf" and sk: "Suc k < length buf" by simp_all
  have len: "length (take k (tl buf)) = k" using sk by simp
  have d: "drop k buf = buf ! k # drop (Suc k) buf" using k by (simp add: Cons_nth_drop_Suc)
  have d2: "drop (Suc k) buf = buf ! Suc k # drop (Suc (Suc k)) buf"
    using sk by (simp add: Cons_nth_drop_Suc)
  have t: "take (Suc k) (tl buf) = take k (tl buf) @ [buf ! Suc k]"
    using sk by (simp add: take_Suc_conv_app_nth nth_tl)
  have "fold (\<lambda>tmp t. t[tmp := t ! (tmp + 1)]) [0..<Suc k] buf
        = (take k (tl buf) @ drop k buf)[k := (take k (tl buf) @ drop k buf) ! (k + 1)]"
    using Suc.IH[OF k] by simp
  also have "(take k (tl buf) @ drop k buf) ! (k + 1) = buf ! Suc k"
    using len by (simp add: nth_append d d2)
  also have "(take k (tl buf) @ drop k buf)[k := buf ! Suc k]
        = take k (tl buf) @ buf ! Suc k # drop (Suc k) buf"
    using len by (simp add: list_update_append d)
  finally show ?case by (simp add: t)
qed

lemma offer_accept:
  assumes "buf \<noteq> []" and "\<not> p < prob (hd buf)"
  shows "offer v p buf =
    Inr (tl (takeWhile (\<lambda>e. prob e \<le> p) buf) @ \<lparr>vocab_id = v, val = Tensor p\<rparr>
           # dropWhile (\<lambda>e. prob e \<le> p) buf)"
proof -
  let ?P = "\<lambda>e. prob e \<le> p"
  let ?A = "takeWhile ?P buf"
  let ?L = "length ?A"
  from assms obtain e es where buf: "buf = e # es" and pe: "?P e" by (cases buf) (auto simp: not_less)
  then have L1: "1 \<le> ?L" by simp
  have Ll: "?L \<le> length buf" by (rule length_takeWhile_le)
  have lev: "scan_level p buf 0 = int ?L - 1" by (simp add: scan_level_eq)
  have nl: "nat (int ?L - 1) = ?L - 1" by simp
  have lt: "?L - 1 < length buf" using L1 Ll by simp
  have sh: "shift_down (int ?L - 1) buf = take (?L - 1) (tl buf) @ drop (?L - 1) buf"
    unfolding shift_down_def nl by (rule shift_fold_eq[OF lt])
  have tk: "take (?L - 1) (tl buf) = tl ?A"
    by (metis takeWhile_eq_take tl_take)
  have S: "Suc (?L - 1) = ?L" using L1 by simp
  have "drop (?L - 1) buf = buf ! (?L - 1) # drop (Suc (?L - 1)) buf"
    using lt by (rule Cons_nth_drop_Suc[symmetric])
  then have dr: "drop (?L - 1) buf = buf ! (?L - 1) # dropWhile ?P buf"
    unfolding S by (simp only: dropWhile_eq_drop)
  have lenA: "length (tl ?A) = ?L - 1" by (rule length_tl)
  have nn: "\<not> int ?L - 1 < 0" using L1 by linarith
  have upd: "(tl ?A @ buf ! (?L - 1) # dropWhile ?P buf)[?L - 1 := \<lparr>vocab_id = v, val = Tensor p\<rparr>]
        = tl ?A @ \<lparr>vocab_id = v, val = Tensor p\<rparr> # dropWhile ?P buf"
    unfolding lenA[symmetric] by (simp only: list_update_length)
  have st: "store_at (int ?L - 1) \<lparr>vocab_id = v, val = Tensor p\<rparr> (shift_down (int ?L - 1) buf)
        = tl ?A @ \<lparr>vocab_id = v, val = Tensor p\<rparr> # dropWhile ?P buf"
    unfolding sh tk dr store_at_def nl if_not_P[OF nn] by (rule upd)
  have np: "\<not> p < prob e" using pe by (simp add: not_less)
  have "offer v p (e # es) =
      Inr (store_at (scan_level p (e # es) 0) \<lparr>vocab_id = v, val = Tensor p\<rparr>
             (shift_down (scan_level p (e # es) 0) (e # es)))"
    unfolding offer.simps Let_def if_not_P[OF np] by (rule refl)
  then show ?thesis
    unfolding buf[symmetric] lev st .
qed

lemma offer_reject:
  assumes "buf \<noteq> []" and "p < prob (hd buf)"
  shows "offer v p buf = Inr buf"
  using assms by (cases buf) auto


lemma dropWhile_sorted_gt:
  "sorted (map prob buf) \<Longrightarrow> d \<in> set (dropWhile (\<lambda>e. prob e \<le> p) buf) \<Longrightarrow> p < prob d"
  by (induction buf) (auto split: if_splits)

lemma insert_sorted_wrt:
  assumes "sorted_wrt R (A @ D)" and "\<forall>a\<in>set (tl A). R a new" and "\<forall>d\<in>set D. R new d"
  shows "sorted_wrt R (tl A @ new # D)"
proof (cases A)
  case Nil
  with assms show ?thesis by simp
next
  case (Cons a as)
  with assms show ?thesis by (auto simp: sorted_wrt_append)
qed

lemma offer_cases:
  assumes "offer v p buf = Inr buf'"
  obtains (reject) "buf \<noteq> []" "p < prob (hd buf)" "buf' = buf"
  | (accept) "buf \<noteq> []" "prob (hd buf) \<le> p"
      "buf' = tl (takeWhile (\<lambda>e. prob e \<le> p) buf) @ \<lparr>vocab_id = v, val = Tensor p\<rparr>
                # dropWhile (\<lambda>e. prob e \<le> p) buf"
proof (cases "buf = []")
  case True
  with assms show ?thesis by simp
next
  case ne: False
  show ?thesis
  proof (cases "p < prob (hd buf)")
    case True
    with assms ne offer_reject[OF ne True, of v] show ?thesis by (auto intro: reject)
  next
    case False
    with assms ne offer_accept[OF ne False, of v] show ?thesis by (auto intro: accept simp: not_less)
  qed
qed

lemma offer_sorted:
  assumes "sorted (map prob buf)" and "offer v p buf = Inr buf'"
  shows "sorted (map prob buf')"
  using assms(2)
proof (cases rule: offer_cases)
  case reject
  with assms(1) show ?thesis by simp
next
  case accept
  let ?P = "\<lambda>e. prob e \<le> p"
  let ?R = "\<lambda>a b. prob a \<le> prob b"
  have s: "sorted_wrt ?R (takeWhile ?P buf @ dropWhile ?P buf)"
    using assms(1) by (simp add: sorted_map)
  have a: "\<forall>a\<in>set (tl (takeWhile ?P buf)). ?R a \<lparr>vocab_id = v, val = Tensor p\<rparr>"
  proof
    fix a assume "a \<in> set (tl (takeWhile ?P buf))"
    then have "a \<in> set (takeWhile ?P buf)" by (cases "takeWhile ?P buf") auto
    then show "?R a \<lparr>vocab_id = v, val = Tensor p\<rparr>" by (auto dest: set_takeWhileD)
  qed
  have d: "\<forall>d\<in>set (dropWhile ?P buf). ?R \<lparr>vocab_id = v, val = Tensor p\<rparr> d"
    using dropWhile_sorted_gt[OF assms(1)] by fastforce
  from insert_sorted_wrt[OF s a d] show ?thesis
    unfolding accept(3) sorted_map .
qed

lemma offer_length:
  assumes "offer v p buf = Inr buf'"
  shows "length buf' = length buf"
  using assms
proof (cases rule: offer_cases)
  case reject
  then show ?thesis by simp
next
  case accept
  let ?P = "\<lambda>e. prob e \<le> p"
  have "takeWhile ?P buf \<noteq> []" using accept(1,2) by (cases buf) auto
  then have "length (tl (takeWhile ?P buf)) + 1 = length (takeWhile ?P buf)" by (cases "takeWhile ?P buf") auto
  moreover have "length (takeWhile ?P buf) + length (dropWhile ?P buf) = length buf"
    by (metis length_append takeWhile_dropWhile_id)
  ultimately show ?thesis unfolding accept(3) by simp
qed

lemma offer_all_sorted:
  "sorted (map prob b0) \<Longrightarrow> offer_all pr vs b0 = Inr buf \<Longrightarrow> sorted (map prob buf)"
  by (induction vs arbitrary: b0) (auto split: sum.splits dest: offer_sorted)

lemma offer_all_length:
  "offer_all pr vs b0 = Inr buf \<Longrightarrow> length buf = length b0"
  by (induction vs arbitrary: b0) (auto split: sum.splits dest: offer_length)


lemma precedes_le: "precedes a b \<Longrightarrow> prob a \<le> prob b"
  by (auto simp: precedes_def)

lemma precedes_sorted: "sorted_wrt precedes buf \<Longrightarrow> sorted (map prob buf)"
  unfolding sorted_map by (erule sorted_wrt_mono_rel[rotated]) (rule precedes_le)

lemma precedes_offered:
  "prob a \<le> pr k \<Longrightarrow> (\<exists>i. val a = PyInt i) \<or> (\<exists>u<k. a = offered pr u) \<Longrightarrow>
     precedes a (offered pr k)"
  by (auto simp: precedes_def offered_def)

lemma offer_accept_set:
  assumes "buf \<noteq> []" and "prob (hd buf) \<le> p"
  shows "tl (takeWhile (\<lambda>e. prob e \<le> p) buf) @ dropWhile (\<lambda>e. prob e \<le> p) buf = tl buf"
proof -
  from assms have "takeWhile (\<lambda>e. prob e \<le> p) buf \<noteq> []" by (cases buf) auto
  then have "tl (takeWhile (\<lambda>e. prob e \<le> p) buf) @ dropWhile (\<lambda>e. prob e \<le> p) buf
      = tl (takeWhile (\<lambda>e. prob e \<le> p) buf @ dropWhile (\<lambda>e. prob e \<le> p) buf)"
    by (rule tl_append2[symmetric])
  then show ?thesis by (simp only: takeWhile_dropWhile_id)
qed

lemma offer_inv:
  assumes off: "offer k (pr k) buf = Inr buf'"
    and srt: "sorted_wrt precedes buf"
    and ents: "\<forall>e\<in>set buf. (\<exists>i. val e = PyInt i) \<or> (\<exists>u<k. e = offered pr u)"
    and dom: "\<forall>u<k. offered pr u \<in> set buf \<or> (\<forall>e\<in>set buf. precedes (offered pr u) e)"
  shows "sorted_wrt precedes buf'"
    and "\<forall>e\<in>set buf'. (\<exists>i. val e = PyInt i) \<or> (\<exists>u<Suc k. e = offered pr u)"
    and "\<forall>u<Suc k. offered pr u \<in> set buf' \<or> (\<forall>e\<in>set buf'. precedes (offered pr u) e)"
proof -
  let ?P = "\<lambda>e. prob e \<le> pr k"
  let ?new = "offered pr k"
  have hd_le: "prob (hd buf) \<le> prob e" if "e \<in> set buf" for e
  proof -
    from that obtain h t where b: "buf = h # t" by (cases buf) auto
    with that srt show ?thesis by (auto dest: precedes_le)
  qed
  have hd_prec: "precedes (hd buf) e" if "e \<in> set (tl buf)" for e
  proof -
    from that obtain h t where b: "buf = h # t" by (cases buf) auto
    with that srt show ?thesis by auto
  qed
  have "sorted_wrt precedes buf'
    \<and> (\<forall>e\<in>set buf'. (\<exists>i. val e = PyInt i) \<or> (\<exists>u<Suc k. e = offered pr u))
    \<and> (\<forall>u<Suc k. offered pr u \<in> set buf' \<or> (\<forall>e\<in>set buf'. precedes (offered pr u) e))"
    using off
  proof (cases rule: offer_cases)
    case reject
    have "\<forall>e\<in>set buf. precedes ?new e"
    proof
      fix e assume "e \<in> set buf"
      from hd_le[OF this] reject(2) show "precedes ?new e"
        by (simp add: precedes_def offered_def)
    qed
    with dom have "\<forall>u<Suc k. offered pr u \<in> set buf \<or> (\<forall>e\<in>set buf. precedes (offered pr u) e)"
      by (auto simp: less_Suc_eq)
    moreover from ents have "\<forall>e\<in>set buf. (\<exists>i. val e = PyInt i) \<or> (\<exists>u<Suc k. e = offered pr u)"
      by (auto simp: less_Suc_eq)
    ultimately show ?thesis using srt unfolding reject(3) by blast
  next
    case accept
    have b': "buf' = tl (takeWhile ?P buf) @ ?new # dropWhile ?P buf"
      using accept(3) by (simp add: offered_def)
    have tlb: "tl (takeWhile ?P buf) @ dropWhile ?P buf = tl buf"
      by (rule offer_accept_set[OF accept(1,2)])
    have setb: "set buf' = insert ?new (set (tl buf))"
      unfolding b' tlb[symmetric] by auto
    have sub: "set (tl buf) \<subseteq> set buf" using accept(1) by (cases buf) auto
    have s: "sorted_wrt precedes (takeWhile ?P buf @ dropWhile ?P buf)"
      using srt by simp
    have a: "\<forall>a\<in>set (tl (takeWhile ?P buf)). precedes a ?new"
    proof
      fix a assume "a \<in> set (tl (takeWhile ?P buf))"
      then have m: "a \<in> set (takeWhile ?P buf)" by (cases "takeWhile ?P buf") auto
      then have "prob a \<le> pr k" by (auto dest: set_takeWhileD)
      moreover from m have "a \<in> set buf" by (auto dest: set_takeWhileD)
      with ents have "(\<exists>i. val a = PyInt i) \<or> (\<exists>u<k. a = offered pr u)" by blast
      ultimately show "precedes a ?new" by (rule precedes_offered)
    qed
    have d: "\<forall>d\<in>set (dropWhile ?P buf). precedes ?new d"
    proof
      fix d assume "d \<in> set (dropWhile ?P buf)"
      from dropWhile_sorted_gt[OF precedes_sorted[OF srt] this]
      show "precedes ?new d" by (simp add: precedes_def offered_def)
    qed
    have c1: "sorted_wrt precedes buf'"
      unfolding b' by (rule insert_sorted_wrt[OF s a d])
    have c2: "\<forall>e\<in>set buf'. (\<exists>i. val e = PyInt i) \<or> (\<exists>u<Suc k. e = offered pr u)"
    proof
      fix e assume "e \<in> set buf'"
      with setb sub have "e = ?new \<or> e \<in> set buf" by auto
      with ents show "(\<exists>i. val e = PyInt i) \<or> (\<exists>u<Suc k. e = offered pr u)"
        by (auto simp: less_Suc_eq)
    qed
    have c3: "\<forall>u<Suc k. offered pr u \<in> set buf' \<or> (\<forall>e\<in>set buf'. precedes (offered pr u) e)"
    proof (intro allI impI)
      fix u assume "u < Suc k"
      then consider "u = k" | "u < k" by (auto simp: less_Suc_eq)
      then show "offered pr u \<in> set buf' \<or> (\<forall>e\<in>set buf'. precedes (offered pr u) e)"
      proof cases
        case 1
        then show ?thesis using setb by simp
      next
        case 2
        show ?thesis
        proof (cases "offered pr u \<in> set buf'")
          case True
          then show ?thesis by simp
        next
          case out: False
          have tail: "precedes (offered pr u) e" if "e \<in> set (tl buf)" for e
          proof (cases "offered pr u \<in> set buf")
            case True
            with out setb have "offered pr u \<notin> set (tl buf)" by simp
            with True accept(1) have "offered pr u = hd buf" by (cases buf) auto
            with hd_prec[OF that] show ?thesis by simp
          next
            case False
            with dom 2 that sub show ?thesis by blast
          qed
          have le: "prob (offered pr u) \<le> pr k"
          proof (cases "offered pr u \<in> set buf")
            case True
            with out setb have "offered pr u \<notin> set (tl buf)" by simp
            with True accept(1) have "offered pr u = hd buf" by (cases buf) auto
            with accept(2) show ?thesis by simp
          next
            case False
            from accept(1) have "hd buf \<in> set buf" by simp
            with dom 2 False have "precedes (offered pr u) (hd buf)" by blast
            from precedes_le[OF this] accept(2) show ?thesis by simp
          qed
          have "precedes (offered pr u) ?new"
            by (rule precedes_offered[of "offered pr u" pr k, OF le]) (use 2 in blast)
          with tail setb show ?thesis by auto
        qed
      qed
    qed
    from c1 c2 c3 show ?thesis by blast
  qed
  then show "sorted_wrt precedes buf'"
    and "\<forall>e\<in>set buf'. (\<exists>i. val e = PyInt i) \<or> (\<exists>u<Suc k. e = offered pr u)"
    and "\<forall>u<Suc k. offered pr u \<in> set buf' \<or> (\<forall>e\<in>set buf'. precedes (offered pr u) e)"
    by blast+
qed

lemma offer_all_snoc:
  "offer_all pr (vs @ [v]) buf =
     (case offer_all pr vs buf of Inl e \<Rightarrow> Inl e | Inr b \<Rightarrow> offer v (pr v) b)"
  by (induction vs arbitrary: buf) (auto split: sum.splits)

lemma sorted_wrt_replicate: "R x x \<Longrightarrow> sorted_wrt R (replicate n x)"
  by (induction n) auto

lemma offer_all_inv:
  assumes "offer_all pr [0..<k] (replicate n (sentinel tok)) = Inr buf"
  shows "sorted_wrt precedes buf
    \<and> (\<forall>e\<in>set buf. (\<exists>i. val e = PyInt i) \<or> (\<exists>u<k. e = offered pr u))
    \<and> (\<forall>u<k. offered pr u \<in> set buf \<or> (\<forall>e\<in>set buf. precedes (offered pr u) e))"
  using assms
proof (induction k arbitrary: buf)
  case 0
  then have "buf = replicate n (sentinel tok)" by simp
  then show ?case by (auto simp: sentinel_def precedes_def intro!: sorted_wrt_replicate)
next
  case (Suc k)
  from Suc.prems obtain b where b: "offer_all pr [0..<k] (replicate n (sentinel tok)) = Inr b"
    and off: "offer k (pr k) b = Inr buf"
    by (auto simp: offer_all_snoc split: sum.splits)
  from Suc.IH[OF b] have srt: "sorted_wrt precedes b"
    and ents: "\<forall>e\<in>set b. (\<exists>i. val e = PyInt i) \<or> (\<exists>u<k. e = offered pr u)"
    and dom: "\<forall>u<k. offered pr u \<in> set b \<or> (\<forall>e\<in>set b. precedes (offered pr u) e)"
    by blast+
  from offer_inv[OF off srt ents dom] show ?case by blast
qed

subsection \<open>Sortedness of the buffer and offers at its minimum\<close>

lemma uniform_two_offers:
  "offer_all (fwd_uniform [[2]] 0 0) [0, 1] (replicate 2 (sentinel tok4)) =
     Inr [\<lparr>vocab_id = 0, val = Tensor (1 / 4)\<rparr>, \<lparr>vocab_id = 1, val = Tensor (1 / 4)\<rparr>]"
  by (simp add: decoder_defs fwd_uniform_def)

text \<open>
  Claim C5, as stated, fails: an offered probability equal to the minimum of the buffer is
  not discarded.  After the ids \<open>0\<close> and \<open>1\<close> of the uniform distribution the buffer of
  capacity two holds both with probability \<open>1/4\<close>; the offer of id \<open>2\<close> with the same
  probability evicts id \<open>0\<close>.
\<close>

theorem tie_with_minimum_is_inserted:
  "offer_all (fwd_uniform [[2]] 0 0) [0, 1] (replicate 2 (sentinel tok4)) =
     Inr [\<lparr>vocab_id = 0, val = Tensor (1 / 4)\<rparr>, \<lparr>vocab_id = 1, val = Tensor (1 / 4)\<rparr>]
   \<and> prob (hd [\<lparr>vocab_id = 0, val = Tensor (1 / 4)\<rparr>, \<lparr>vocab_id = 1, val = Tensor (1 / 4)\<rparr>]) = 1 / 4
   \<and> offer 2 (1 / 4) [\<lparr>vocab_id = 0, val = Tensor (1 / 4)\<rparr>, \<lparr>vocab_id = 1, val = Tensor (1 / 4)\<rparr>]
       = Inr [\<lparr>vocab_id = 1, val = Tensor (1 / 4)\<rparr>, \<lparr>vocab_id = 2, val = Tensor (1 / 4)\<rparr>]"
  using uniform_two_offers by (simp add: shift_down_def store_at_def)

text \<open>
  Claim C5, amended.  After every sequence of offers to a buffer of capacity at least one the
  buffer is sorted ascending by probability.  An offered probability less than the minimum of
  the buffer (the probability of its first entry) is discarded and the buffer is not modified.
  An offered probability equal to or greater than the minimum is inserted: the first entry is
  evicted, the new pair is placed behind all entries of at most its probability, and the
  buffer is sorted again.
\<close>

theorem topk_buffer_sorted:
  assumes "offer_all pr vs (replicate n (sentinel tok)) = Inr buf" and "0 < n"
  shows "sorted (map prob buf)
    \<and> (p < prob (hd buf) \<longrightarrow> offer v p buf = Inr buf)
    \<and> (prob (hd buf) \<le> p \<longrightarrow>
         (\<exists>buf'. offer v p buf = Inr buf' \<and> sorted (map prob buf')
            \<and> buf' = tl (takeWhile (\<lambda>e. prob e \<le> p) buf) @ \<lparr>vocab_id = v, val = Tensor p\<rparr>
                       # dropWhile (\<lambda>e. prob e \<le> p) buf))"
proof -
  from assms have ne: "buf \<noteq> []" by (auto dest: offer_all_length)
  have srt: "sorted (map prob buf)"
    by (rule offer_all_sorted[OF _ assms(1)]) (simp add: sorted_map sorted_wrt_replicate)
  have rej: "offer v p buf = Inr buf" if "p < prob (hd buf)"
    by (rule offer_reject[OF ne that])
  have acc: "\<exists>buf'. offer v p buf = Inr buf' \<and> sorted (map prob buf')
            \<and> buf' = tl (takeWhile (\<lambda>e. prob e \<le> p) buf) @ \<lparr>vocab_id = v, val = Tensor p\<rparr>
                       # dropWhile (\<lambda>e. prob e \<le> p) buf" if "prob (hd buf) \<le> p"
  proof -
    from that have "\<not> p < prob (hd buf)" by simp
    from offer_accept[OF ne this, of v] offer_sorted[OF srt] show ?thesis by blast
  qed
  from srt rej acc show ?thesis by blast
qed

theorem topk_buffer_sorted_witness:
  "offer_all (fwd_uniform [[2]] 0 0) [0, 1] (replicate 2 (sentinel tok4)) =
     Inr [\<lparr>vocab_id = 0, val = Tensor (1 / 4)\<rparr>, \<lparr>vocab_id = 1, val = Tensor (1 / 4)\<rparr>]
   \<and> (0 :: nat) < 2
   \<and> sorted (map prob [\<lparr>vocab_id = 0, val = Tensor (1 / 4)\<rparr>, \<lparr>vocab_id = 1, val = Tensor (1 / 4)\<rparr>])
   \<and> offer 2 (1 / 8) [\<lparr>vocab_id = 0, val = Tensor (1 / 4)\<rparr>, \<lparr>vocab_id = 1, val = Tensor (1 / 4)\<rparr>]
       = Inr [\<lparr>vocab_id = 0, val = Tensor (1 / 4)\<rparr>, \<lparr>vocab_id = 1, val = Tensor (1 / 4)\<rparr>]
   \<and> offer 2 (1 / 2) [\<lparr>vocab_id = 0, val = Tensor (1 / 4)\<rparr>, \<lparr>vocab_id = 1, val = Tensor (1 / 4)\<rparr>]
       = Inr [\<lparr>vocab_id = 1, val = Tensor (1 / 4)\<rparr>, \<lparr>vocab_id = 2, val = Tensor (1 / 2)\<rparr>]"
  using uniform_two_offers
    topk_buffer_sorted[OF uniform_two_offers, where p = "1 / 8" and v = 2]
    topk_buffer_sorted[OF uniform_two_offers, where p = "1 / 2" and v = 2]
  by simp

subsection \<open>Ties in the buffer\<close>

lemma tok4_vocab: "vocab_size tok4 = 4"
  by (simp add: tok4_def)

lemma tie_top3:
  "current_beam_top_value tok4 3 (fwd_tie [[2]] 0 0) =
     Inr [\<lparr>vocab_id = 1, val = Tensor (1 / 8)\<rparr>, \<lparr>vocab_id = 2, val = Tensor (3 / 8)\<rparr>,
          \<lparr>vocab_id = 3, val = Tensor (3 / 8)\<rparr>]"
  by (simp add: decoder_defs fwd_tie_def)

text \<open>
  Claim C4, as stated, fails.  The ids \<open>0\<close> and \<open>1\<close> are offered with the same probability
  \<open>1/8\<close>, the ids \<open>2\<close> and \<open>3\<close> with \<open>3/8\<close>, and the buffer has three entries, so
  only one of the ids \<open>0\<close> and \<open>1\<close> can be retained: it is id \<open>1\<close>, the higher one.
\<close>

theorem tie_retains_higher_id:
  "current_beam_top_value tok4 3 (fwd_tie [[2]] 0 0) =
     Inr [\<lparr>vocab_id = 1, val = Tensor (1 / 8)\<rparr>, \<lparr>vocab_id = 2, val = Tensor (3 / 8)\<rparr>,
          \<lparr>vocab_id = 3, val = Tensor (3 / 8)\<rparr>]
   \<and> fwd_tie [[2]] 0 0 0 = 1 / 8 \<and> fwd_tie [[2]] 0 0 1 = 1 / 8"
  using tie_top3 by (simp add: fwd_tie_def)

text \<open>
  Claim C4, amended.  Ties on probability are broken toward the higher vocabulary id: of two
  ids offered to the same buffer with equal probability, the lower one is retained only if
  the higher one is retained as well.
\<close>

theorem ties_to_higher_id:
  assumes "current_beam_top_value tok beam_width pr = Inr buf"
    and "u < w" and "w < vocab_size tok" and "pr u = pr w"
    and "\<lparr>vocab_id = u, val = Tensor (pr u)\<rparr> \<in> set buf"
  shows "\<lparr>vocab_id = w, val = Tensor (pr w)\<rparr> \<in> set buf"
proof (rule ccontr)
  assume out: "\<lparr>vocab_id = w, val = Tensor (pr w)\<rparr> \<notin> set buf"
  from offer_all_inv[OF assms(1)[unfolded current_beam_top_value_def]] assms(3)
  have "offered pr w \<in> set buf \<or> (\<forall>e\<in>set buf. precedes (offered pr w) e)" by blast
  with out assms(5) have "precedes (offered pr w) (offered pr u)"
    by (auto simp: offered_def)
  with assms(2,4) show False by (simp add: precedes_def offered_def)
qed

theorem ties_to_higher_id_witness:
  "current_beam_top_value tok4 3 (fwd_tie [[2]] 0 0) =
     Inr [\<lparr>vocab_id = 1, val = Tensor (1 / 8)\<rparr>, \<lparr>vocab_id = 2, val = Tensor (3 / 8)\<rparr>,
          \<lparr>vocab_id = 3, val = Tensor (3 / 8)\<rparr>]
   \<and> (2 :: nat) < 3 \<and> 3 < vocab_size tok4 \<and> fwd_tie [[2]] 0 0 2 = fwd_tie [[2]] 0 0 3
   \<and> \<lparr>vocab_id = 2, val = Tensor (fwd_tie [[2]] 0 0 2)\<rparr>
        \<in> set [\<lparr>vocab_id = 1, val = Tensor (1 / 8)\<rparr>, \<lparr>vocab_id = 2, val = Tensor (3 / 8)\<rparr>,
                 \<lparr>vocab_id = 3, val = Tensor (3 / 8)\<rparr>]
   \<and> \<lparr>vocab_id = 3, val = Tensor (fwd_tie [[2]] 0 0 3)\<rparr>
        \<in> set [\<lparr>vocab_id = 1, val = Tensor (1 / 8)\<rparr>, \<lparr>vocab_id = 2, val = Tensor (3 / 8)\<rparr>,
                 \<lparr>vocab_id = 3, val = Tensor (3 / 8)\<rparr>]"
  using tie_top3 ties_to_higher_id[OF tie_top3, of 2 3]
  by (simp add: fwd_tie_def tok4_vocab)

subsection \<open>Termination and the amount of work\<close>











end
